theory Spec2Isabelle
  imports Complex_Main "HOL-Library.Sublist"
begin

section \<open>Strings\<close>

text \<open>
  Python \<^verbatim>\<open>str\<close> values are modelled as \<^typ>\<open>string\<close>. The texts, role hints and colour
  strings of the scripts are read as ASCII: letters are \<^verbatim>\<open>A-Z\<close> and \<^verbatim>\<open>a-z\<close>, and the
  word characters of \<^verbatim>\<open>\w\<close> are letters, digits and the underscore.
\<close>

definition is_upper :: "char \<Rightarrow> bool" where
  "is_upper c = (65 \<le> (of_char c :: nat) \<and> (of_char c :: nat) \<le> 90)"

definition is_lower :: "char \<Rightarrow> bool" where
  "is_lower c = (97 \<le> (of_char c :: nat) \<and> (of_char c :: nat) \<le> 122)"

definition is_digit :: "char \<Rightarrow> bool" where
  "is_digit c = (48 \<le> (of_char c :: nat) \<and> (of_char c :: nat) \<le> 57)"

definition upper_char :: "char \<Rightarrow> char" where
  "upper_char c = (if is_lower c then char_of ((of_char c :: nat) - 32) else c)"

definition lower_char :: "char \<Rightarrow> char" where
  "lower_char c = (if is_upper c then char_of ((of_char c :: nat) + 32) else c)"

text \<open>\<^verbatim>\<open>s.upper()\<close> and \<^verbatim>\<open>s.lower()\<close>.\<close>

definition upper :: "string \<Rightarrow> string" where
  "upper s = map upper_char s"

definition lower :: "string \<Rightarrow> string" where
  "lower s = map lower_char s"

text \<open>\<^verbatim>\<open>sub in s\<close> on strings.\<close>

fun contains :: "string \<Rightarrow> string \<Rightarrow> bool" where
  "contains sub [] = (sub = [])"
| "contains sub (c # cs) = (prefix sub (c # cs) \<or> contains sub cs)"

section \<open>The regular expressions of the keyword clusters\<close>

text \<open>
  Every pattern of \<^verbatim>\<open>KEYWORD_CLUSTERS\<close> has one of three shapes:
  \<^verbatim>\<open>\b(LIT)\b\<close>, \<^verbatim>\<open>\b(LIT)s?\b\<close> and \<^verbatim>\<open>\b(LIT)(y|ies)\b\<close>, where \<^verbatim>\<open>LIT\<close> is a literal
  phrase. A pattern is the literal with the shape of its tail. The replacement templates
  are \<^verbatim>\<open>[\1](URL)\<close> and \<^verbatim>\<open>[\1\2](URL)\<close>.
\<close>

datatype tail = NoTail | OptS | YOrIes

datatype regex = Rx string tail

datatype template = Group1 string | Group12 string

type_synonym pattern = "regex \<times> template"

definition is_word :: "char \<Rightarrow> bool" where
  "is_word c = (is_upper c \<or> is_lower c \<or> is_digit c \<or> c = CHR ''_'')"

definition word_opt :: "char option \<Rightarrow> bool" where
  "word_opt c = (case c of None \<Rightarrow> False | Some x \<Rightarrow> is_word x)"

text \<open>
  \<^verbatim>\<open>\b\<close> between the character before a position and the character after it; the start
  and the end of the text count as non-word characters.
\<close>

definition boundary :: "char option \<Rightarrow> char option \<Rightarrow> bool" where
  "boundary a b = (word_opt a \<noteq> word_opt b)"

definition head :: "string \<Rightarrow> char option" where
  "head s = (case s of [] \<Rightarrow> None | c # _ \<Rightarrow> Some c)"

definition last_opt :: "char option \<Rightarrow> string \<Rightarrow> char option" where
  "last_opt prev s = (if s = [] then prev else Some (last s))"

text \<open>Whether \<open>s\<close> starts with \<open>l\<close> under \<^verbatim>\<open>re.IGNORECASE\<close>.\<close>

fun starts_ci :: "string \<Rightarrow> string \<Rightarrow> bool" where
  "starts_ci [] s = True"
| "starts_ci (a # l) [] = False"
| "starts_ci (a # l) (c # s) = (if lower_char a = lower_char c then starts_ci l s else False)"

text \<open>
  The tail of a pattern and the closing \<^verbatim>\<open>\b\<close>, tried in the order of the backtracking
  matcher: \<^verbatim>\<open>s?\<close> is greedy, \<^verbatim>\<open>(y|ies)\<close> tries \<^verbatim>\<open>y\<close> first. \<open>prev\<close> is the
  character before \<open>r\<close>. The result is the text matched by the tail and the text after
  the match.
\<close>

definition ends_here :: "string \<Rightarrow> nat \<Rightarrow> string \<Rightarrow> bool" where
  "ends_here l n r =
     (if starts_ci l r then boundary (head (drop (n - 1) r)) (head (drop n r)) else False)"

fun match_tail :: "tail \<Rightarrow> char option \<Rightarrow> string \<Rightarrow> (string \<times> string) option" where
  "match_tail NoTail prev r = (if boundary prev (head r) then Some ([], r) else None)"
| "match_tail OptS prev r =
     (if ends_here ''s'' 1 r then Some (take 1 r, drop 1 r)
      else if boundary prev (head r) then Some ([], r)
      else None)"
| "match_tail YOrIes prev r =
     (if ends_here ''y'' 1 r then Some (take 1 r, drop 1 r)
      else if ends_here ''ies'' 3 r then Some (take 3 r, drop 3 r)
      else None)"

text \<open>
  A match of the whole pattern that starts at the beginning of \<open>s\<close>, where \<open>prev\<close> is the
  character before \<open>s\<close>: group 1, the text matched by the tail, the rest.
\<close>

fun match_here :: "regex \<Rightarrow> char option \<Rightarrow> string \<Rightarrow> (string \<times> string \<times> string) option" where
  "match_here (Rx l t) prev s =
     (if boundary prev (head s) then
        if starts_ci l s then
          (case match_tail t (last_opt prev (take (length l) s)) (drop (length l) s) of
             None \<Rightarrow> None
           | Some (g2, r) \<Rightarrow> Some (take (length l) s, g2, r))
        else None
      else None)"

text \<open>
  \<^verbatim>\<open>re.search(pattern, s, re.IGNORECASE)\<close>: the leftmost match, as the text before the
  match, group 1, the tail's text and the text after the match.
\<close>

fun re_search :: "regex \<Rightarrow> char option \<Rightarrow> string \<Rightarrow> (string \<times> string \<times> string \<times> string) option" where
  "re_search rx prev [] =
     (case match_here rx prev [] of
        Some (g1, g2, r) \<Rightarrow> Some ([], g1, g2, r)
      | None \<Rightarrow> None)"
| "re_search rx prev (c # cs) =
     (case match_here rx prev (c # cs) of
        Some (g1, g2, r) \<Rightarrow> Some ([], g1, g2, r)
      | None \<Rightarrow>
          (case re_search rx (Some c) cs of
             None \<Rightarrow> None
           | Some (pre, g1, g2, r) \<Rightarrow> Some (c # pre, g1, g2, r)))"

fun expand :: "template \<Rightarrow> string \<Rightarrow> string \<Rightarrow> string" where
  "expand (Group1 url) g1 g2 = ''['' @ g1 @ '']('' @ url @ '')''"
| "expand (Group12 url) g1 g2 = ''['' @ g1 @ g2 @ '']('' @ url @ '')''"

text \<open>\<^verbatim>\<open>re.sub(pattern, replacement, s, count=1, flags=re.IGNORECASE)\<close>.\<close>

definition re_sub1 :: "pattern \<Rightarrow> string \<Rightarrow> string" where
  "re_sub1 p s =
     (case re_search (fst p) None s of
        None \<Rightarrow> s
      | Some (pre, g1, g2, r) \<Rightarrow> pre @ expand (snd p) g1 g2 @ r)"

section \<open>The keyword clusters\<close>

record cluster =
  url :: string
  patterns :: "pattern list"

definition plural :: "string \<Rightarrow> string \<Rightarrow> pattern" where
  "plural l u = (Rx l OptS, Group1 u)"

definition exact :: "string \<Rightarrow> string \<Rightarrow> pattern" where
  "exact l u = (Rx l NoTail, Group1 u)"

definition y_ies :: "string \<Rightarrow> string \<Rightarrow> pattern" where
  "y_ies l u = (Rx l YOrIes, Group12 u)"

definition CFO_cluster :: cluster where
  "CFO_cluster = \<lparr>url = ''/fractional-jobs?role=CFO'', patterns = [
     plural ''Fractional CFO'' ''/fractional-jobs?role=CFO'',
     plural ''fractional CFO'' ''/fractional-jobs?role=CFO'',
     plural ''Fractional Finance Director'' ''/fractional-jobs?role=CFO'',
     plural ''fractional finance director'' ''/fractional-jobs?role=CFO'',
     plural ''CFO role'' ''/fractional-jobs?role=CFO'',
     plural ''part-time CFO'' ''/fractional-jobs?role=CFO'',
     y_ies ''CFO opportunit'' ''/fractional-jobs?role=CFO'',
     exact ''finance leadership'' ''/fractional-jobs?role=CFO'',
     plural ''senior finance leader'' ''/fractional-jobs?role=CFO'',
     exact ''strategic financial'' ''/fractional-jobs?role=CFO'']\<rparr>"

definition CMO_cluster :: cluster where
  "CMO_cluster = \<lparr>url = ''/fractional-jobs?role=CMO'', patterns = [
     plural ''Fractional CMO'' ''/fractional-jobs?role=CMO'',
     plural ''fractional CMO'' ''/fractional-jobs?role=CMO'',
     plural ''Fractional Marketing Director'' ''/fractional-jobs?role=CMO'',
     plural ''fractional marketing director'' ''/fractional-jobs?role=CMO'',
     plural ''CMO role'' ''/fractional-jobs?role=CMO'',
     plural ''part-time CMO'' ''/fractional-jobs?role=CMO'',
     y_ies ''CMO opportunit'' ''/fractional-jobs?role=CMO'',
     exact ''marketing leadership'' ''/fractional-jobs?role=CMO'']\<rparr>"

definition CTO_cluster :: cluster where
  "CTO_cluster = \<lparr>url = ''/fractional-jobs?role=CTO'', patterns = [
     plural ''Fractional CTO'' ''/fractional-jobs?role=CTO'',
     plural ''fractional CTO'' ''/fractional-jobs?role=CTO'',
     plural ''Fractional Tech Director'' ''/fractional-jobs?role=CTO'',
     plural ''fractional tech director'' ''/fractional-jobs?role=CTO'',
     plural ''CTO role'' ''/fractional-jobs?role=CTO'',
     plural ''part-time CTO'' ''/fractional-jobs?role=CTO'',
     y_ies ''CTO opportunit'' ''/fractional-jobs?role=CTO'',
     exact ''technology leadership'' ''/fractional-jobs?role=CTO'',
     exact ''technical leadership'' ''/fractional-jobs?role=CTO'']\<rparr>"

definition COO_cluster :: cluster where
  "COO_cluster = \<lparr>url = ''/fractional-jobs?role=COO'', patterns = [
     plural ''Fractional COO'' ''/fractional-jobs?role=COO'',
     plural ''fractional COO'' ''/fractional-jobs?role=COO'',
     plural ''Fractional Operations Director'' ''/fractional-jobs?role=COO'',
     plural ''fractional operations director'' ''/fractional-jobs?role=COO'',
     plural ''COO role'' ''/fractional-jobs?role=COO'',
     plural ''part-time COO'' ''/fractional-jobs?role=COO'',
     y_ies ''COO opportunit'' ''/fractional-jobs?role=COO'',
     exact ''operations leadership'' ''/fractional-jobs?role=COO'']\<rparr>"

definition general_cluster :: cluster where
  "general_cluster = \<lparr>url = ''/fractional-jobs'', patterns = [
     plural ''fractional role'' ''/fractional-jobs'',
     plural ''fractional job'' ''/fractional-jobs'',
     plural ''fractional executive'' ''/fractional-jobs'',
     plural ''fractional leader'' ''/fractional-jobs'',
     plural ''fractional position'' ''/fractional-jobs'',
     plural ''part-time executive'' ''/fractional-jobs'',
     plural ''portfolio career'' ''/fractional-jobs'',
     y_ies ''fractional opportunit'' ''/fractional-jobs'',
     exact ''fractional work'' ''/fractional-jobs'',
     plural ''fractional engagement'' ''/fractional-jobs'']\<rparr>"

definition KEYWORD_CLUSTERS :: "(string \<times> cluster) list" where
  "KEYWORD_CLUSTERS = [
     (''CFO'', CFO_cluster),
     (''CMO'', CMO_cluster),
     (''CTO'', CTO_cluster),
     (''COO'', COO_cluster),
     (''general'', general_cluster)]"

section \<open>add_links_to_description\<close>

text \<open>The priority order of the clusters, from the role category.\<close>

definition role_first :: "string option \<Rightarrow> string list" where
  "role_first role_category =
     (case role_category of
        None \<Rightarrow> [''general'']
      | Some rc \<Rightarrow>
          if rc = [] then [''general'']
          else
            (let role_upper = upper rc in
             if role_upper \<in> set (map fst KEYWORD_CLUSTERS) then [role_upper, ''general'']
             else if contains ''CFO'' role_upper \<or> contains ''FINANCE'' role_upper
               then [''CFO'', ''general'']
             else if contains ''CMO'' role_upper \<or> contains ''MARKET'' role_upper
               then [''CMO'', ''general'']
             else if contains ''CTO'' role_upper \<or> contains ''TECH'' role_upper
               then [''CTO'', ''general'']
             else if contains ''COO'' role_upper \<or> contains ''OPERATION'' role_upper
               then [''COO'', ''general'']
             else [''general'']))"

fun add_remaining :: "string list \<Rightarrow> string list \<Rightarrow> string list" where
  "add_remaining [] cluster_order = cluster_order"
| "add_remaining (c # cs) cluster_order =
     add_remaining cs (if c \<in> set cluster_order then cluster_order else cluster_order @ [c])"

definition cluster_order :: "string option \<Rightarrow> string list" where
  "cluster_order role_category =
     add_remaining [''CFO'', ''CMO'', ''CTO'', ''COO''] (role_first role_category)"

definition max_links :: nat where
  "max_links = 3"

text \<open>The inner loop: the first pattern of the cluster that matches is substituted once.\<close>

fun try_patterns :: "pattern list \<Rightarrow> string \<Rightarrow> string option" where
  "try_patterns [] result = None"
| "try_patterns (p # ps) result =
     (if re_search (fst p) None result \<noteq> None then Some (re_sub1 p result)
      else try_patterns ps result)"

text \<open>The outer loop over the cluster names, on (result, links_added, clusters_used).\<close>

fun link_loop :: "string list \<Rightarrow> string \<times> nat \<times> string list \<Rightarrow> string \<times> nat \<times> string list" where
  "link_loop [] st = st"
| "link_loop (cluster_name # rest) (result, links_added, clusters_used) =
     (if links_added \<ge> max_links then (result, links_added, clusters_used)
      else
        (case map_of KEYWORD_CLUSTERS cluster_name of
           None \<Rightarrow> link_loop rest (result, links_added, clusters_used)
         | Some cl \<Rightarrow>
             (case try_patterns (patterns cl) result of
                None \<Rightarrow> link_loop rest (result, links_added, clusters_used)
              | Some result' \<Rightarrow>
                  link_loop rest (result', links_added + 1, clusters_used @ [cluster_name]))))"

definition add_links_to_description :: "string \<Rightarrow> string option \<Rightarrow> string \<times> nat \<times> string list" where
  "add_links_to_description text role_category =
     (if text = [] then (text, 0, [])
      else if contains ''](/fractional-jobs'' text then (text, 0, [])
      else link_loop (cluster_order role_category) (text, 0, []))"

section \<open>Brand.dev: colours\<close>

datatype py_error = ValueError

text \<open>The characters that \<^verbatim>\<open>int(s, 16)\<close> skips around the number in an ASCII string.\<close>

definition is_space :: "char \<Rightarrow> bool" where
  "is_space c = ((9 \<le> (of_char c :: nat) \<and> (of_char c :: nat) \<le> 13) \<or> c = CHR '' '')"

definition strip :: "string \<Rightarrow> string" where
  "strip s = rev (dropWhile is_space (rev (dropWhile is_space s)))"

definition hex_digit :: "char \<Rightarrow> int option" where
  "hex_digit c =
     (if is_digit c then Some (of_char c - 48)
      else if 97 \<le> (of_char c :: nat) \<and> (of_char c :: nat) \<le> 102 then Some (of_char c - 87)
      else if 65 \<le> (of_char c :: nat) \<and> (of_char c :: nat) \<le> 70 then Some (of_char c - 55)
      else None)"

text \<open>
  \<^verbatim>\<open>int(s, 16)\<close> where \<open>s\<close> is a slice of at most two characters, which is all that
  \<^verbatim>\<open>calculate_brightness\<close> passes: one or two hexadecimal digits, or a sign and one digit,
  with surrounding white space; anything else raises \<^verbatim>\<open>ValueError\<close>.
\<close>

definition int16 :: "string \<Rightarrow> py_error + int" where
  "int16 s =
     (case strip s of
        [c] \<Rightarrow> (case hex_digit c of None \<Rightarrow> Inl ValueError | Some x \<Rightarrow> Inr x)
      | [c, d] \<Rightarrow>
          (case hex_digit d of
             None \<Rightarrow> Inl ValueError
           | Some y \<Rightarrow>
               (case hex_digit c of
                  Some x \<Rightarrow> Inr (16 * x + y)
                | None \<Rightarrow>
                    if c = CHR ''+'' then Inr y
                    else if c = CHR ''-'' then Inr (- y)
                    else Inl ValueError))
      | _ \<Rightarrow> Inl ValueError)"

text \<open>
  \<^verbatim>\<open>int(x / 1000)\<close> for an integer \<open>x\<close>: the quotient truncated towards zero. The float
  quotient of the source is exact enough for the truncation to be that of the exact
  quotient, since \<open>x\<close> is small and a quotient that is not an integer is at least
  \<open>1/1000\<close> away from one.
\<close>

definition int_div_1000 :: "int \<Rightarrow> int" where
  "int_div_1000 x = (if 0 \<le> x then x div 1000 else - ((- x) div 1000))"

definition calculate_brightness :: "string \<Rightarrow> py_error + int" where
  "calculate_brightness hex_color =
     (let h = dropWhile (\<lambda>c. c = CHR ''#'') hex_color in
      case int16 (take 2 h) of
        Inl e \<Rightarrow> Inl e
      | Inr r \<Rightarrow>
          (case int16 (take 2 (drop 2 h)) of
             Inl e \<Rightarrow> Inl e
           | Inr g \<Rightarrow>
               (case int16 (take 2 (drop 4 h)) of
                  Inl e \<Rightarrow> Inl e
                | Inr b \<Rightarrow> Inr (int_div_1000 (r * 299 + g * 587 + b * 114)))))"

text \<open>The colour name is \<open>None\<close> where the payload has no name or a null one.\<close>

definition infer_color_type :: "string option \<Rightarrow> int \<Rightarrow> string" where
  "infer_color_type color_name brightness =
     (let name_lower = (case color_name of None \<Rightarrow> [] | Some n \<Rightarrow> lower n) in
      if brightness < 50 then ''dark''
      else if brightness > 200 then ''light''
      else if contains ''primary'' name_lower \<or> contains ''brand'' name_lower then ''brand''
      else if contains ''accent'' name_lower \<or> contains ''secondary'' name_lower then ''accent''
      else if brightness < 128 then ''dark''
      else ''accent'')"

section \<open>Brand.dev: extract_brand_data\<close>

text \<open>
  The payload is modelled with the shape the provider documents: a field is a value of
  its type or absent (\<open>None\<close>, or the empty list for a list).
\<close>

record bd_color =
  color_hex :: "string option"
  color_name :: "string option"





record color_entry =
  hex :: string
  type :: string
  brightness :: int


text \<open>A dictionary keeps its keys in insertion order; assigning to a key that is there keeps its place.\<close>

fun dict_set :: "string \<Rightarrow> 'v \<Rightarrow> (string \<times> 'v) list \<Rightarrow> (string \<times> 'v) list" where
  "dict_set k v [] = [(k, v)]"
| "dict_set k v (p # ps) = (if fst p = k then (k, v) # ps else p # dict_set k v ps)"










section \<open>Brandfetch: extract_brand_data\<close>

record bf_color =
  bf_hex :: "string option"
  bf_type :: "string option"
  bf_brightness :: "int option"

record bf_font =
  font_type :: "string option"
  font_name :: "string option"

record bf_format =
  format :: "string option"
  src :: "string option"

record bf_logo =
  bf_logo_type :: "string option"
  bf_logo_theme :: "string option"
  bf_logo_formats :: "bf_format list"

record bf_company =
  foundedYear :: "int option"
  numberOfEmployees :: "int option"
  company_industries :: "string option list"

record bf_response =
  resp_colors :: "bf_color list"
  resp_fonts :: "bf_font list"
  resp_logos :: "bf_logo list"
  resp_description :: "string option"
  resp_company :: "bf_company option"
  qualityScore :: "rat option"

record bf_brand_data =
  bf_colors :: "bf_color list"
  bf_font_title :: "string option"
  bf_font_body :: "string option"
  bf_logos :: "(string \<times> string option) list"
  bf_description :: "string option"
  bf_founded :: "int option"
  bf_employees :: "int option"
  bf_location :: "string option"
  bf_industries :: "string option list"
  bf_quality_score :: "rat option"

fun fonts_loop :: "bf_font list \<Rightarrow> string option \<times> string option \<Rightarrow> string option \<times> string option" where
  "fonts_loop [] st = st"
| "fonts_loop (font # rest) (title, body) =
     (if font_type font = Some ''title'' then fonts_loop rest (font_name font, body)
      else if font_type font = Some ''body'' then fonts_loop rest (title, font_name font)
      else fonts_loop rest (title, body))"

text \<open>The loop over the formats of one logo: an SVG is stored and ends the loop, a PNG is stored.\<close>

fun formats_loop :: "string \<Rightarrow> bf_format list \<Rightarrow> (string \<times> string option) list \<Rightarrow> (string \<times> string option) list" where
  "formats_loop key [] acc = acc"
| "formats_loop key (fmt # rest) acc =
     (if format fmt = Some ''svg'' then dict_set key (src fmt) acc
      else if format fmt = Some ''png'' then formats_loop key rest (dict_set key (src fmt) acc)
      else formats_loop key rest acc)"

definition logo_key :: "bf_logo \<Rightarrow> string" where
  "logo_key logo =
     (case bf_logo_type logo of None \<Rightarrow> ''logo'' | Some t \<Rightarrow> t) @ ''_'' @
     (case bf_logo_theme logo of None \<Rightarrow> ''light'' | Some t \<Rightarrow> t)"

fun bf_logos_loop :: "bf_logo list \<Rightarrow> (string \<times> string option) list \<Rightarrow> (string \<times> string option) list" where
  "bf_logos_loop [] acc = acc"
| "bf_logos_loop (logo # rest) acc =
     bf_logos_loop rest (formats_loop (logo_key logo) (bf_logo_formats logo) acc)"

definition extract_brand_data_brandfetch :: "bf_response \<Rightarrow> bf_brand_data" where
  "extract_brand_data_brandfetch api_response =
     (let fonts = fonts_loop (resp_fonts api_response) (None, None);
          company_info = resp_company api_response
      in \<lparr>bf_colors = resp_colors api_response,
           bf_font_title = fst fonts,
           bf_font_body = snd fonts,
           bf_logos = bf_logos_loop (resp_logos api_response) [],
           bf_description = resp_description api_response,
           bf_founded = (case company_info of None \<Rightarrow> None | Some c \<Rightarrow> foundedYear c),
           bf_employees = (case company_info of None \<Rightarrow> None | Some c \<Rightarrow> numberOfEmployees c),
           bf_location = None,
           bf_industries = (case company_info of None \<Rightarrow> [] | Some c \<Rightarrow> company_industries c),
           bf_quality_score = qualityScore api_response\<rparr>)"

section \<open>Auxiliary notions\<close>

definition template_url :: "template \<Rightarrow> string" where
  "template_url tm = (case tm of Group1 u \<Rightarrow> u | Group12 u \<Rightarrow> u)"

definition marker :: string where
  "marker = ''](/fractional-jobs''"

text \<open>
  The brightness as the specification words it, rounded to the nearest integer, to be
  compared with \<^const>\<open>calculate_brightness\<close>.
\<close>

definition rounded_brightness :: "int \<Rightarrow> int \<Rightarrow> int \<Rightarrow> int" where
  "rounded_brightness r g b = round ((299 * of_int r + 587 * of_int g + 114 * of_int b) / (1000 :: rat))"

text \<open>
  What the loop over the formats of one logo leaves under the logo's key: the source of the
  first SVG if there is one, otherwise the source of the last PNG, otherwise nothing.
\<close>

definition best_src :: "bf_format list \<Rightarrow> string option option" where
  "best_src fs =
     (case find (\<lambda>f. format f = Some ''svg'') fs of
        Some f \<Rightarrow> Some (src f)
      | None \<Rightarrow>
          (case filter (\<lambda>f. format f = Some ''png'') fs of
             [] \<Rightarrow> None
           | p # ps \<Rightarrow> Some (src (last (p # ps)))))"

text \<open>
  The choice as the specification words it, the first PNG where there is no SVG, to be
  compared with the loop.
\<close>

definition first_src :: "bf_format list \<Rightarrow> string option option" where
  "first_src fs =
     (case find (\<lambda>f. format f = Some ''svg'') fs of
        Some f \<Rightarrow> Some (src f)
      | None \<Rightarrow>
          (case find (\<lambda>f. format f = Some ''png'') fs of
             Some f \<Rightarrow> Some (src f)
           | None \<Rightarrow> None))"

text \<open>
  Notions for showing that a match of one pattern survives the substitution of a match of
  another: a literal is well formed when it begins and ends with a word character; two
  strings agree when one is a prefix of the other; the word tails of a string are its
  suffixes that start after a non-word character or at its start.
\<close>

fun literal :: "regex \<Rightarrow> string" where
  "literal (Rx l t) = l"

definition wf_lit :: "string \<Rightarrow> bool" where
  "wf_lit l = (l \<noteq> [] \<and> is_word (hd l) \<and> is_word (last l))"

definition agree :: "string \<Rightarrow> string \<Rightarrow> bool" where
  "agree a b = (prefix a b \<or> prefix b a)"

fun word_tails :: "char option \<Rightarrow> string \<Rightarrow> string list" where
  "word_tails prev [] = []"
| "word_tails prev (c # cs) =
     (if word_opt prev then word_tails (Some c) cs else (c # cs) # word_tails (Some c) cs)"

definition separated_from :: "string \<Rightarrow> string \<Rightarrow> bool" where
  "separated_from l1 l2 = list_all (\<lambda>t. \<not> agree t (lower l2)) (word_tails None (lower l1))"

definition compatible :: "regex \<Rightarrow> regex \<Rightarrow> bool" where
  "compatible r1 r2 =
     (wf_lit (literal r1) \<and> wf_lit (literal r2) \<and>
      separated_from (literal r1) (literal r2) \<and> separated_from (literal r2) (literal r1))"

section \<open>Properties\<close>

subsection \<open>Characters, evaluated on their bits\<close>

lemma is_upper_Char:
  "is_upper (Char b0 b1 b2 b3 b4 b5 b6 b7) \<longleftrightarrow>
     \<not> b7 \<and> b6 \<and> \<not> b5 \<and> (b0 \<or> b1 \<or> b2 \<or> b3 \<or> b4) \<and> \<not> (b4 \<and> b3 \<and> (b2 \<or> (b1 \<and> b0)))"
  by (cases b0; cases b1; cases b2; cases b3; cases b4; cases b5; cases b6; cases b7;
      simp add: is_upper_def)

lemma is_lower_Char:
  "is_lower (Char b0 b1 b2 b3 b4 b5 b6 b7) \<longleftrightarrow>
     \<not> b7 \<and> b6 \<and> b5 \<and> (b0 \<or> b1 \<or> b2 \<or> b3 \<or> b4) \<and> \<not> (b4 \<and> b3 \<and> (b2 \<or> (b1 \<and> b0)))"
  by (cases b0; cases b1; cases b2; cases b3; cases b4; cases b5; cases b6; cases b7;
      simp add: is_lower_def)

lemma is_digit_Char:
  "is_digit (Char b0 b1 b2 b3 b4 b5 b6 b7) \<longleftrightarrow>
     \<not> b7 \<and> \<not> b6 \<and> b5 \<and> b4 \<and> \<not> (b3 \<and> (b2 \<or> b1))"
  by (cases b0; cases b1; cases b2; cases b3; cases b4; cases b5; cases b6; cases b7;
      simp add: is_digit_def)

lemma lower_char_Char:
  "lower_char (Char b0 b1 b2 b3 b4 b5 b6 b7) =
     Char b0 b1 b2 b3 b4 (b5 \<or> is_upper (Char b0 b1 b2 b3 b4 b5 b6 b7)) b6 b7"
  by (cases b0; cases b1; cases b2; cases b3; cases b4; cases b5; cases b6; cases b7;
      simp add: lower_char_def is_upper_def char_of_eq_iff take_bit_eq_mod)

lemma upper_char_Char:
  "upper_char (Char b0 b1 b2 b3 b4 b5 b6 b7) =
     Char b0 b1 b2 b3 b4 (b5 \<and> \<not> is_lower (Char b0 b1 b2 b3 b4 b5 b6 b7)) b6 b7"
  by (cases b0; cases b1; cases b2; cases b3; cases b4; cases b5; cases b6; cases b7;
      simp add: upper_char_def is_lower_def char_of_eq_iff take_bit_eq_mod)

lemmas char_eval = is_upper_Char is_lower_Char is_digit_Char lower_char_Char upper_char_Char
  is_word_def

lemma not_lower_upper_char: "\<not> is_lower (upper_char c)"
  by (cases c) (auto simp add: char_eval)

lemma not_upper_lower_char: "\<not> is_upper (lower_char c)"
  by (cases c) (auto simp add: char_eval)

lemma is_word_lower_char: "is_word (lower_char c) = is_word c"
  by (cases c) (auto simp add: char_eval)

subsection \<open>Substrings\<close>

lemma contains_iff: "contains sub s \<longleftrightarrow> (\<exists>a b. s = a @ sub @ b)"
proof (induction s)
  case Nil
  then show ?case by auto
next
  case (Cons c cs)
  show ?case
  proof
    assume "contains sub (c # cs)"
    then consider "prefix sub (c # cs)" | "contains sub cs" by auto
    then show "\<exists>a b. c # cs = a @ sub @ b"
    proof cases
      case 1
      then obtain b where "c # cs = sub @ b" by (auto simp: prefix_def)
      then have "c # cs = [] @ sub @ b" by simp
      then show ?thesis by blast
    next
      case 2
      with Cons obtain a b where "cs = a @ sub @ b" by blast
      then have "c # cs = (c # a) @ sub @ b" by simp
      then show ?thesis by blast
    qed
  next
    assume "\<exists>a b. c # cs = a @ sub @ b"
    then obtain a b where ab: "c # cs = a @ sub @ b" by blast
    show "contains sub (c # cs)"
    proof (cases a)
      case Nil
      with ab have "prefix sub (c # cs)" by (simp add: prefix_def)
      then show ?thesis by simp
    next
      case (Cons x a')
      with ab have "cs = a' @ sub @ b" by simp
      with Cons.IH have "contains sub cs" by blast
      then show ?thesis by simp
    qed
  qed
qed

lemma contains_append_left: "contains sub b \<Longrightarrow> contains sub (a @ b)"
  by (metis append.assoc contains_iff)

lemma contains_append_right: "contains sub a \<Longrightarrow> contains sub (a @ b)"
  by (metis append.assoc contains_iff)

subsection \<open>The matcher\<close>

lemma starts_ci_iff:
  "starts_ci l s \<longleftrightarrow> length l \<le> length s \<and> lower (take (length l) s) = lower l"
  by (induction l s rule: starts_ci.induct) (auto simp: lower_def)

lemma match_tail_split: "match_tail t prev r = Some (g2, r') \<Longrightarrow> r = g2 @ r'"
  by (cases t) (auto split: if_splits)

lemma match_here_split: "match_here rx prev s = Some (g1, g2, r) \<Longrightarrow> s = g1 @ g2 @ r"
proof (cases rx)
  case (Rx l t)
  assume "match_here rx prev s = Some (g1, g2, r)"
  with Rx have g1: "g1 = take (length l) s"
    and mt: "match_tail t (last_opt prev (take (length l) s)) (drop (length l) s) = Some (g2, r)"
    by (auto split: if_splits option.splits)
  from match_tail_split[OF mt] have "drop (length l) s = g2 @ r" .
  with g1 show ?thesis by (metis append_take_drop_id)
qed

lemma re_search_split: "re_search rx prev s = Some (pre, g1, g2, r) \<Longrightarrow> s = pre @ g1 @ g2 @ r"
proof (induction s arbitrary: prev pre)
  case Nil
  then show ?case by (auto split: option.splits dest: match_here_split)
next
  case (Cons c cs)
  show ?case
  proof (cases "match_here rx prev (c # cs)")
    case None
    with Cons.prems obtain pre' where s: "re_search rx (Some c) cs = Some (pre', g1, g2, r)"
      and pre: "pre = c # pre'"
      by (auto split: option.splits)
    from Cons.IH[OF s] pre show ?thesis by simp
  next
    case (Some m)
    with Cons.prems have "m = (g1, g2, r)" "pre = []" by (auto split: prod.splits)
    with Some match_here_split show ?thesis by fastforce
  qed
qed

lemma expand_marker:
  "prefix ''/fractional-jobs'' (template_url tm) \<Longrightarrow> contains marker (expand tm g1 g2)"
proof -
  assume "prefix ''/fractional-jobs'' (template_url tm)"
  then obtain u where u: "template_url tm = ''/fractional-jobs'' @ u" by (auto simp: prefix_def)
  have "\<exists>a b. expand tm g1 g2 = a @ marker @ b"
  proof (cases tm)
    case (Group1 x)
    with u have "expand tm g1 g2 = (''['' @ g1) @ marker @ (u @ '')'')"
      by (simp add: template_url_def marker_def)
    then show ?thesis by blast
  next
    case (Group12 x)
    with u have "expand tm g1 g2 = (''['' @ g1 @ g2) @ marker @ (u @ '')'')"
      by (simp add: template_url_def marker_def)
    then show ?thesis by blast
  qed
  then show ?thesis by (simp add: contains_iff)
qed

lemma re_sub1_marker:
  assumes "re_search (fst p) None s \<noteq> None" and "prefix ''/fractional-jobs'' (template_url (snd p))"
  shows "contains marker (re_sub1 p s)"
proof -
  from assms(1) obtain pre g1 g2 r where "re_search (fst p) None s = Some (pre, g1, g2, r)"
    by (cases "re_search (fst p) None s") auto
  then have "re_sub1 p s = pre @ expand (snd p) g1 g2 @ r" by (simp add: re_sub1_def)
  with expand_marker[OF assms(2)] show ?thesis
    by (simp add: contains_append_left contains_append_right)
qed

lemma try_patterns_Some:
  "try_patterns ps s = Some s' \<Longrightarrow> \<exists>p \<in> set ps. re_search (fst p) None s \<noteq> None \<and> s' = re_sub1 p s"
  by (induction ps) (auto split: if_splits)

lemma try_patterns_None:
  "try_patterns ps s = None \<longleftrightarrow> (\<forall>p \<in> set ps. re_search (fst p) None s = None)"
  by (induction ps) (simp_all del: not_None_eq)

subsection \<open>The cluster table\<close>

lemma cluster_names: "map fst KEYWORD_CLUSTERS = [''CFO'', ''CMO'', ''CTO'', ''COO'', ''general'']"
  by (simp add: KEYWORD_CLUSTERS_def)

lemma cluster_urls:
  "(name, cl) \<in> set KEYWORD_CLUSTERS \<Longrightarrow> p \<in> set (patterns cl) \<Longrightarrow>
     prefix ''/fractional-jobs'' (template_url (snd p))"
  by (auto simp: KEYWORD_CLUSTERS_def CFO_cluster_def CMO_cluster_def CTO_cluster_def
      COO_cluster_def general_cluster_def plural_def exact_def y_ies_def template_url_def)

lemma try_patterns_marker:
  assumes "map_of KEYWORD_CLUSTERS name = Some cl" and "try_patterns (patterns cl) s = Some s'"
  shows "contains marker s'"
proof -
  from assms(1) have "(name, cl) \<in> set KEYWORD_CLUSTERS" by (rule map_of_SomeD)
  with try_patterns_Some[OF assms(2)] cluster_urls re_sub1_marker show ?thesis by blast
qed

subsection \<open>The loop over the clusters\<close>

lemma subseq_set: "subseq xs ys \<Longrightarrow> set xs \<subseteq> set ys"
  by (induction rule: list_emb.induct) auto

lemma subseq_distinct: "subseq xs ys \<Longrightarrow> distinct ys \<Longrightarrow> distinct xs"
proof (induction rule: list_emb.induct)
  case (list_emb_Cons2 x y xs ys)
  from list_emb_Cons2.hyps(2) have "set xs \<subseteq> set ys" by (rule subseq_set)
  with list_emb_Cons2 show ?case by auto
qed auto

lemma link_loop_inv:
  "link_loop cs (r, n, u) = (r', n', u') \<Longrightarrow>
     \<exists>v. u' = u @ v \<and> subseq v cs \<and> n' = n + length v \<and>
         (n \<le> max_links \<longrightarrow> n' \<le> max_links) \<and>
         (v = [] \<longrightarrow> r' = r) \<and> (v \<noteq> [] \<longrightarrow> contains marker r')"
proof (induction cs arbitrary: r n u)
  case Nil
  then show ?case by simp
next
  case (Cons c cs)
  show ?case
  proof (cases "n \<ge> max_links")
    case True
    with Cons.prems show ?thesis by simp
  next
    case False
    note small = this
    show ?thesis
    proof (cases "map_of KEYWORD_CLUSTERS c")
      case None
      with small Cons.prems have "link_loop cs (r, n, u) = (r', n', u')" by simp
      from Cons.IH[OF this] show ?thesis by auto
    next
      case (Some cl)
      show ?thesis
      proof (cases "try_patterns (patterns cl) r")
        case None
        with Some small Cons.prems have "link_loop cs (r, n, u) = (r', n', u')" by simp
        from Cons.IH[OF this] show ?thesis by auto
      next
        case (Some r1)
        with \<open>map_of KEYWORD_CLUSTERS c = Some cl\<close> small Cons.prems
        have "link_loop cs (r1, n + 1, u @ [c]) = (r', n', u')" by simp
        from Cons.IH[OF this] obtain v where v: "u' = (u @ [c]) @ v" "subseq v cs"
          "n' = n + 1 + length v" "n + 1 \<le> max_links \<longrightarrow> n' \<le> max_links"
          "v = [] \<longrightarrow> r' = r1" "v \<noteq> [] \<longrightarrow> contains marker r'"
          by blast
        from try_patterns_marker[OF \<open>map_of KEYWORD_CLUSTERS c = Some cl\<close> Some]
        have m: "contains marker r1" .
        have "u' = u @ (c # v)" using v(1) by simp
        moreover have "subseq (c # v) (c # cs)" using v(2) by simp
        moreover have "n' = n + length (c # v)" using v(3) by simp
        moreover have "n \<le> max_links \<longrightarrow> n' \<le> max_links" using v(4) small by simp
        moreover have "contains marker r'" using v(5,6) m by (cases "v = []") auto
        ultimately show ?thesis by blast
      qed
    qed
  qed
qed

lemma link_loop_count_mono: "n \<le> fst (snd (link_loop cs (r, n, u)))"
proof -
  obtain r' n' u' where e: "link_loop cs (r, n, u) = (r', n', u')" by (cases "link_loop cs (r, n, u)")
  from link_loop_inv[OF e] e show ?thesis by auto
qed

subsection \<open>The order of the clusters\<close>

lemma upper_not_general: "upper rc \<noteq> ''general''"
proof
  assume "upper rc = ''general''"
  then obtain c where "upper_char c = CHR ''g''" by (cases rc) (auto simp: upper_def)
  moreover have "is_lower (CHR ''g'')" by (simp add: char_eval)
  ultimately show False using not_lower_upper_char[of c] by simp
qed

lemma role_first_cases:
  "role_first role \<in> {[''general''], [''CFO'', ''general''], [''CMO'', ''general''],
     [''CTO'', ''general''], [''COO'', ''general'']}"
  using upper_not_general
  by (auto simp: role_first_def Let_def cluster_names split: option.splits)

lemma cluster_order_cases:
  "cluster_order role \<in> {[''general'', ''CFO'', ''CMO'', ''CTO'', ''COO''],
     [''CFO'', ''general'', ''CMO'', ''CTO'', ''COO''],
     [''CMO'', ''general'', ''CFO'', ''CTO'', ''COO''],
     [''CTO'', ''general'', ''CFO'', ''CMO'', ''COO''],
     [''COO'', ''general'', ''CFO'', ''CMO'', ''CTO'']}"
  using role_first_cases[of role] by (auto simp: cluster_order_def)

lemma distinct_cluster_order: "distinct (cluster_order role)"
  using cluster_order_cases[of role] by auto

lemma add_links_cases:
  "add_links_to_description text role = (text, 0, []) \<or>
   (text \<noteq> [] \<and> \<not> contains marker text \<and>
    add_links_to_description text role = link_loop (cluster_order role) (text, 0, []))"
  by (simp add: add_links_to_description_def marker_def)

subsection \<open>Evaluating the matcher on a given text\<close>

lemmas matcher_eval = char_eval word_opt_def boundary_def head_def last_opt_def ends_here_def
  re_sub1_def plural_def exact_def y_ies_def

lemma link_loop_first:
  "map_of KEYWORD_CLUSTERS c = Some cl \<Longrightarrow> try_patterns (patterns cl) r = Some r1 \<Longrightarrow>
     n < max_links \<Longrightarrow> link_loop (c # cs) (r, n, u) = link_loop cs (r1, n + 1, u @ [c])"
  by simp

lemma link_loop_first_positive:
  assumes "map_of KEYWORD_CLUSTERS c = Some cl" and "try_patterns (patterns cl) r = Some r1"
  shows "0 < fst (snd (link_loop (c # cs) (r, 0, [])))"
proof -
  have "link_loop (c # cs) (r, 0, []) = link_loop cs (r1, 0 + 1, [] @ [c])"
    using assms by (intro link_loop_first) (simp_all add: max_links_def)
  moreover have "0 + 1 \<le> fst (snd (link_loop cs (r1, 0 + 1, [] @ [c])))"
    by (rule link_loop_count_mono)
  ultimately show ?thesis by simp
qed

lemma cluster_order_CFO:
  "cluster_order (Some ''CFO'') = [''CFO'', ''general'', ''CMO'', ''CTO'', ''COO'']"
  by (simp add: cluster_order_def role_first_def upper_def char_eval cluster_names)

lemma try_CFO_role:
  "try_patterns (patterns CFO_cluster) ''CFO role'' = Some ''[CFO role](/fractional-jobs?role=CFO)''"
  by (simp add: CFO_cluster_def matcher_eval)

subsection \<open>Claims about the guards and the budget\<close>

text \<open>
  C9. For the empty text, the only falsy value of a string, \<^verbatim>\<open>add_links_to_description\<close>
  returns the text itself with no link added and no cluster used, whatever the role
  category; this first check comes before the check for an existing link and before any
  matching.
\<close>

theorem C9_empty_text:
  "add_links_to_description [] role = ([], 0, [])"
  by (simp add: add_links_to_description_def)

text \<open>
  C1. A text that already contains \<^verbatim>\<open>](/fractional-jobs\<close> is returned unchanged, with no
  link added and no cluster used. Hence a second application to an output in which the
  first one added a link adds nothing.
\<close>

theorem C1_existing_link_guard:
  "(contains ''](/fractional-jobs'' text \<longrightarrow>
      add_links_to_description text role = (text, 0, [])) \<and>
   (0 < fst (snd (add_links_to_description text role)) \<longrightarrow>
      add_links_to_description (fst (add_links_to_description text role)) role' =
        (fst (add_links_to_description text role), 0, []))"
proof
  show "contains ''](/fractional-jobs'' text \<longrightarrow>
      add_links_to_description text role = (text, 0, [])"
    by (simp add: add_links_to_description_def)
next
  show "0 < fst (snd (add_links_to_description text role)) \<longrightarrow>
      add_links_to_description (fst (add_links_to_description text role)) role' =
        (fst (add_links_to_description text role), 0, [])"
  proof
    assume pos: "0 < fst (snd (add_links_to_description text role))"
    obtain r n u where res: "add_links_to_description text role = (r, n, u)"
      by (cases "add_links_to_description text role")
    with pos have n: "0 < n" by simp
    with res add_links_cases[of "text" role]
    have "link_loop (cluster_order role) (text, 0, []) = (r, n, u)" by auto
    from link_loop_inv[OF this] n have "contains marker r" by auto
    then have "add_links_to_description r role' = (r, 0, [])"
      by (simp add: add_links_to_description_def marker_def)
    with res show "add_links_to_description (fst (add_links_to_description text role)) role' =
        (fst (add_links_to_description text role), 0, [])" by simp
  qed
qed

theorem C1_existing_link_guard_witness:
  "contains ''](/fractional-jobs'' ''[fractional CFO](/fractional-jobs?role=CFO)'' \<and>
   add_links_to_description ''[fractional CFO](/fractional-jobs?role=CFO)'' (Some ''CFO'') =
     (''[fractional CFO](/fractional-jobs?role=CFO)'', 0, []) \<and>
   0 < fst (snd (add_links_to_description ''CFO role'' (Some ''CFO''))) \<and>
   add_links_to_description (fst (add_links_to_description ''CFO role'' (Some ''CFO'')))
       (Some ''CFO'') =
     (fst (add_links_to_description ''CFO role'' (Some ''CFO'')), 0, [])"
proof -
  have has: "contains ''](/fractional-jobs'' ''[fractional CFO](/fractional-jobs?role=CFO)''"
    by simp
  have "map_of KEYWORD_CLUSTERS ''CFO'' = Some CFO_cluster"
    by (simp add: KEYWORD_CLUSTERS_def)
  from link_loop_first_positive[OF this try_CFO_role]
  have pos: "0 < fst (snd (add_links_to_description ''CFO role'' (Some ''CFO'')))"
    by (simp add: add_links_to_description_def cluster_order_CFO)
  from has pos
    C1_existing_link_guard[of "''[fractional CFO](/fractional-jobs?role=CFO)''" "Some ''CFO''"]
    C1_existing_link_guard[of "''CFO role''" "Some ''CFO''" "Some ''CFO''"]
  show ?thesis by blast
qed

text \<open>
  C10. Two role categories that are equal after uppercasing give the same result on every
  text.
\<close>

theorem C10_role_case_insensitive:
  "upper h1 = upper h2 \<Longrightarrow>
     add_links_to_description text (Some h1) = add_links_to_description text (Some h2)"
proof -
  assume eq: "upper h1 = upper h2"
  then have "(h1 = []) = (h2 = [])" by (auto simp: upper_def)
  with eq have "role_first (Some h1) = role_first (Some h2)"
    by (simp add: role_first_def)
  then show ?thesis by (simp add: add_links_to_description_def cluster_order_def)
qed

theorem C10_role_case_insensitive_witness:
  "upper ''cfo'' = upper ''CFO'' \<and>
   add_links_to_description ''CFO role'' (Some ''cfo'') =
     add_links_to_description ''CFO role'' (Some ''CFO'')"
proof -
  have "upper ''cfo'' = upper ''CFO''" by (simp add: upper_def char_eval)
  with C10_role_case_insensitive[of "''cfo''" "''CFO''" "''CFO role''"] show ?thesis by simp
qed

lemma add_links_result_props:
  "fst (snd (add_links_to_description text role)) =
     length (snd (snd (add_links_to_description text role))) \<and>
   fst (snd (add_links_to_description text role)) \<le> 3 \<and>
   distinct (snd (snd (add_links_to_description text role)))"
proof -
  obtain r n u where res: "add_links_to_description text role = (r, n, u)"
    by (cases "add_links_to_description text role")
  from add_links_cases[of "text" role] have "n = length u \<and> n \<le> 3 \<and> distinct u"
  proof
    assume "add_links_to_description text role = (text, 0, [])"
    with res show ?thesis by simp
  next
    assume "text \<noteq> [] \<and> \<not> contains marker text \<and>
      add_links_to_description text role = link_loop (cluster_order role) (text, 0, [])"
    with res have "link_loop (cluster_order role) (text, 0, []) = (r, n, u)" by simp
    from link_loop_inv[OF this] obtain v where v: "u = v" "subseq v (cluster_order role)"
      "n = length v" "n \<le> max_links"
      by auto
    from subseq_distinct[OF v(2) distinct_cluster_order] v show ?thesis
      by (simp add: max_links_def)
  qed
  with res show ?thesis by simp
qed

text \<open>
  C2. On every text and role category, the number of links added is the number of
  clusters used, it is at most 3, and no cluster is used twice.
\<close>

theorem C2_budget_and_exclusivity:
  "fst (snd (add_links_to_description text role)) =
     length (snd (snd (add_links_to_description text role))) \<and>
   fst (snd (add_links_to_description text role)) \<le> 3 \<and>
   distinct (snd (snd (add_links_to_description text role)))"
  by (rule add_links_result_props)

subsection \<open>The leftmost match\<close>

lemma last_opt_Cons: "last_opt prev (c # xs) = last_opt (Some c) xs"
  by (simp add: last_opt_def)


lemma re_search_leftmost:
  "re_search rx prev s = Some (pre, g1, g2, post) \<Longrightarrow>
     match_here rx (last_opt prev pre) (g1 @ g2 @ post) = Some (g1, g2, post) \<and>
     (\<forall>k < length pre. match_here rx (last_opt prev (take k pre)) (drop k s) = None)"
proof (induction s arbitrary: prev pre)
  case Nil
  then have "pre = []" and "match_here rx prev [] = Some (g1, g2, post)"
    by (auto split: option.splits)
  moreover from this match_here_split have "[] = g1 @ g2 @ post" by blast
  ultimately show ?case by (simp add: last_opt_def)
next
  case (Cons c cs)
  show ?case
  proof (cases "match_here rx prev (c # cs)")
    case (Some m)
    with Cons.prems have m: "m = (g1, g2, post)" and pre: "pre = []"
      by (auto split: prod.splits)
    from Some m match_here_split have "c # cs = g1 @ g2 @ post" by blast
    with Some m pre show ?thesis by (simp add: last_opt_def)
  next
    case None
    with Cons.prems obtain pre' where s: "re_search rx (Some c) cs = Some (pre', g1, g2, post)"
      and pre: "pre = c # pre'"
      by (auto split: option.splits)
    from Cons.IH[OF s]
    have here: "match_here rx (last_opt (Some c) pre') (g1 @ g2 @ post) = Some (g1, g2, post)"
      and before: "\<And>j. j < length pre' \<Longrightarrow>
        match_here rx (last_opt (Some c) (take j pre')) (drop j cs) = None"
      by auto
    have "match_here rx (last_opt prev (take k pre)) (drop k (c # cs)) = None"
      if "k < length pre" for k
    proof (cases k)
      case 0
      with None show ?thesis by (simp add: last_opt_def)
    next
      case (Suc j)
      with that pre have "j < length pre'" by simp
      from before[OF this] Suc pre show ?thesis by (simp add: last_opt_Cons)
    qed
    with here pre show ?thesis by (simp add: last_opt_Cons)
  qed
qed




subsection \<open>Claim about the substitution\<close>



subsection \<open>Hexadecimal digits\<close>

lemma hex_digit_Char:
  "hex_digit (Char b0 b1 b2 b3 b4 b5 b6 b7) = Some a \<Longrightarrow>
     0 \<le> a \<and> a \<le> 15 \<and> \<not> is_space (Char b0 b1 b2 b3 b4 b5 b6 b7) \<and>
     Char b0 b1 b2 b3 b4 b5 b6 b7 \<noteq> CHR ''#''"
  by (cases b0; cases b1; cases b2; cases b3; cases b4; cases b5; cases b6; cases b7;
      simp add: hex_digit_def is_digit_def is_space_def)

lemma hex_digit_props:
  "hex_digit c = Some a \<Longrightarrow> 0 \<le> a \<and> a \<le> 15 \<and> \<not> is_space c \<and> c \<noteq> CHR ''#''"
  by (cases c, hypsubst, erule hex_digit_Char)

lemma int16_pair:
  assumes "hex_digit c = Some a" and "hex_digit d = Some b"
  shows "int16 [c, d] = Inr (16 * a + b)"
proof -
  from assms hex_digit_props have "\<not> is_space c" "\<not> is_space d" by blast+
  then have "strip [c, d] = [c, d]" by (simp add: strip_def)
  with assms show ?thesis by (simp add: int16_def)
qed

lemma int_div_1000_nonneg: "0 \<le> x \<Longrightarrow> int_div_1000 x = x div 1000"
  by (simp add: int_div_1000_def)

lemma brightness_six_digits:
  assumes "hex_digit c1 = Some a1" "hex_digit c2 = Some a2" "hex_digit c3 = Some a3"
    "hex_digit c4 = Some a4" "hex_digit c5 = Some a5" "hex_digit c6 = Some a6"
  shows "calculate_brightness (replicate k CHR ''#'' @ [c1, c2, c3, c4, c5, c6]) =
     Inr ((299 * (16 * a1 + a2) + 587 * (16 * a3 + a4) + 114 * (16 * a5 + a6)) div 1000)"
proof -
  from assms(1) hex_digit_props have "c1 \<noteq> CHR ''#''" by blast
  then have "dropWhile (\<lambda>c. c = CHR ''#'') (replicate k CHR ''#'' @ [c1, c2, c3, c4, c5, c6]) =
      [c1, c2, c3, c4, c5, c6]"
    by (induction k) simp_all
  moreover have "0 \<le> 299 * (16 * a1 + a2) + 587 * (16 * a3 + a4) + 114 * (16 * a5 + a6)"
    using assms hex_digit_props by (smt (verit))
  ultimately show ?thesis
    using int16_pair[OF assms(1,2)] int16_pair[OF assms(3,4)] int16_pair[OF assms(5,6)]
    by (simp add: calculate_brightness_def int_div_1000_nonneg)
qed

lemma brightness_bounds:
  assumes "0 \<le> r" "r \<le> 255" "0 \<le> g" "g \<le> 255" "0 \<le> b" "b \<le> (255::int)"
  shows "0 \<le> (299 * r + 587 * g + 114 * b) div 1000 \<and> (299 * r + 587 * g + 114 * b) div 1000 \<le> 255"
proof -
  have "0 \<le> 299 * r + 587 * g + 114 * b" using assms by simp
  moreover have "299 * r + 587 * g + 114 * b \<le> 255000" using assms by simp
  ultimately show ?thesis by linarith
qed

lemma hex_digit_F: "hex_digit CHR ''F'' = Some 15"
  by (simp add: hex_digit_def is_digit_def)

lemma hex_digit_0: "hex_digit CHR ''0'' = Some 0"
  by (simp add: hex_digit_def is_digit_def)

lemma hex_digit_1: "hex_digit CHR ''1'' = Some 1"
  by (simp add: hex_digit_def is_digit_def)

lemma floor_divide_numeral_rat: "\<lfloor>(numeral a :: rat) / numeral b\<rfloor> = numeral a div numeral b"
  using floor_divide_of_int_eq[of "numeral a" "numeral b", where ?'a = rat] by simp

subsection \<open>Claim about the brightness\<close>

text \<open>
  C4, as stated: the brightness of a colour of six hexadecimal digits is
  \<open>(299 R + 587 G + 114 B) / 1000\<close> rounded to the nearest integer. It is not: the source
  truncates the quotient. For \<^verbatim>\<open>#336699\<close> the quotient is \<open>92.565\<close>, the source returns
  \<open>92\<close>, rounding gives \<open>93\<close>.
\<close>

theorem C4_rounding_counterexample:
  "calculate_brightness ''#336699'' = Inr 92 \<and> rounded_brightness 51 102 153 = 93 \<and>
   calculate_brightness ''#336699'' \<noteq> Inr (rounded_brightness 51 102 153)"
proof -
  have d3: "hex_digit CHR ''3'' = Some 3" and d6: "hex_digit CHR ''6'' = Some 6"
    and d9: "hex_digit CHR ''9'' = Some 9"
    by (simp_all add: hex_digit_def is_digit_def)
  from brightness_six_digits[OF d3 d3 d6 d6 d9 d9, of "Suc 0"]
  have "calculate_brightness ''#336699'' = Inr 92" by simp
  moreover have "rounded_brightness 51 102 153 = 93"
    by (simp add: rounded_brightness_def round_def floor_divide_numeral_rat)
  ultimately show ?thesis by simp
qed

text \<open>
  C4, amended. For a colour string of six hexadecimal digits, with or without leading
  \<^verbatim>\<open>#\<close>, \<^verbatim>\<open>calculate_brightness\<close> returns \<open>(299 R + 587 G + 114 B) div 1000\<close>, the quotient
  truncated, where \<open>R\<close>, \<open>G\<close>, \<open>B\<close> are the values of the three digit pairs; the result
  lies between 0 and 255. \<^verbatim>\<open>#000000\<close> gives 0, which is classified dark, and
  \<^verbatim>\<open>#FFFFFF\<close> gives 255, which is classified light.
\<close>

theorem C4_brightness_truncated:
  assumes "hex_digit c1 = Some a1" "hex_digit c2 = Some a2" "hex_digit c3 = Some a3"
    "hex_digit c4 = Some a4" "hex_digit c5 = Some a5" "hex_digit c6 = Some a6"
  shows "calculate_brightness (replicate k CHR ''#'' @ [c1, c2, c3, c4, c5, c6]) =
      Inr ((299 * (16 * a1 + a2) + 587 * (16 * a3 + a4) + 114 * (16 * a5 + a6)) div 1000) \<and>
    0 \<le> (299 * (16 * a1 + a2) + 587 * (16 * a3 + a4) + 114 * (16 * a5 + a6)) div 1000 \<and>
    (299 * (16 * a1 + a2) + 587 * (16 * a3 + a4) + 114 * (16 * a5 + a6)) div 1000 \<le> 255 \<and>
    calculate_brightness ''#000000'' = Inr 0 \<and> infer_color_type name 0 = ''dark'' \<and>
    calculate_brightness ''#FFFFFF'' = Inr 255 \<and> infer_color_type name 255 = ''light''"
proof -
  have pair: "0 \<le> 16 * a + b \<and> 16 * a + b \<le> 255"
    if "hex_digit c = Some a" "hex_digit d = Some b" for c d a b
    using that hex_digit_props by (smt (verit))
  from pair[OF assms(1,2)] pair[OF assms(3,4)] pair[OF assms(5,6)]
  have "0 \<le> (299 * (16 * a1 + a2) + 587 * (16 * a3 + a4) + 114 * (16 * a5 + a6)) div 1000 \<and>
    (299 * (16 * a1 + a2) + 587 * (16 * a3 + a4) + 114 * (16 * a5 + a6)) div 1000 \<le> 255"
    by (intro brightness_bounds) simp_all
  moreover from brightness_six_digits[OF hex_digit_0 hex_digit_0 hex_digit_0 hex_digit_0
      hex_digit_0 hex_digit_0, of "Suc 0"]
  have "calculate_brightness ''#000000'' = Inr 0" by simp
  moreover from brightness_six_digits[OF hex_digit_F hex_digit_F hex_digit_F hex_digit_F
      hex_digit_F hex_digit_F, of "Suc 0"]
  have "calculate_brightness ''#FFFFFF'' = Inr 255" by simp
  moreover have "infer_color_type name 0 = ''dark''" "infer_color_type name 255 = ''light''"
    by (simp_all add: infer_color_type_def)
  ultimately show ?thesis using brightness_six_digits[OF assms] by simp
qed

theorem C4_brightness_truncated_witness:
  "hex_digit CHR ''3'' = Some 3 \<and> hex_digit CHR ''6'' = Some 6 \<and> hex_digit CHR ''9'' = Some 9 \<and>
   calculate_brightness ''#336699'' = Inr 92 \<and> calculate_brightness ''336699'' = Inr 92"
proof -
  have d3: "hex_digit CHR ''3'' = Some 3" and d6: "hex_digit CHR ''6'' = Some 6"
    and d9: "hex_digit CHR ''9'' = Some 9"
    by (simp_all add: hex_digit_def is_digit_def)
  from C4_brightness_truncated[OF d3 d3 d6 d6 d9 d9, of "Suc 0"]
  have "calculate_brightness ''#336699'' = Inr 92" by simp
  moreover from C4_brightness_truncated[OF d3 d3 d6 d6 d9 d9, of 0]
  have "calculate_brightness ''336699'' = Inr 92" by simp
  ultimately show ?thesis using d3 d6 d9 by simp
qed

subsection \<open>The colour list\<close>







subsection \<open>Claim about the positional override\<close>




subsection \<open>The quality score\<close>





subsection \<open>The logos of a Brandfetch response\<close>

lemma map_of_dict_set: "map_of (dict_set k v d) k' = (if k' = k then Some v else map_of d k')"
  by (induction d) auto

lemma dict_set_twice: "dict_set k v2 (dict_set k v1 d) = dict_set k v2 d"
  by (induction d) auto

lemma keys_dict_set: "fst ` set (dict_set k v d) = insert k (fst ` set d)"
  by (induction d) auto

lemma distinct_dict_set: "distinct (map fst d) \<Longrightarrow> distinct (map fst (dict_set k v d))"
  by (induction d) (auto simp add: keys_dict_set simp del: image_insert)

lemma best_src_Cons:
  "best_src (fmt # rest) =
     (if format fmt = Some ''svg'' then Some (src fmt)
      else if format fmt = Some ''png''
        then (case best_src rest of None \<Rightarrow> Some (src fmt) | Some v \<Rightarrow> Some v)
      else best_src rest)"
  by (auto simp: best_src_def split: option.splits list.splits)

lemma formats_loop_best:
  "formats_loop key fs acc = (case best_src fs of None \<Rightarrow> acc | Some v \<Rightarrow> dict_set key v acc)"
proof (induction fs arbitrary: acc)
  case Nil
  then show ?case by (simp add: best_src_def)
next
  case (Cons fmt rest)
  then show ?case
    by (simp add: best_src_Cons dict_set_twice split: option.splits)
qed

lemma bf_logos_loop_lookup:
  "map_of (bf_logos_loop ls acc) k =
     (case filter (\<lambda>l. logo_key l = k \<and> best_src (bf_logo_formats l) \<noteq> None) ls of
        [] \<Rightarrow> map_of acc k
      | x # xs \<Rightarrow> best_src (bf_logo_formats (last (x # xs))))"
proof (induction ls arbitrary: acc)
  case Nil
  then show ?case by simp
next
  case (Cons l rest)
  let ?acc = "formats_loop (logo_key l) (bf_logo_formats l) acc"
  have step: "map_of ?acc k =
      (if logo_key l = k \<and> best_src (bf_logo_formats l) \<noteq> None
       then best_src (bf_logo_formats l) else map_of acc k)"
    by (auto simp: formats_loop_best map_of_dict_set split: option.splits)
  show ?case
    using Cons.IH[of ?acc] step
    by (auto simp del: not_None_eq split: list.splits)
qed

lemma bf_logos_loop_distinct:
  "distinct (map fst acc) \<Longrightarrow> distinct (map fst (bf_logos_loop ls acc))"
proof (induction ls arbitrary: acc)
  case Nil
  then show ?case by simp
next
  case (Cons l rest)
  from Cons.prems have "distinct (map fst (formats_loop (logo_key l) (bf_logo_formats l) acc))"
    by (auto simp: formats_loop_best distinct_dict_set split: option.splits)
  from Cons.IH[OF this] show ?case by simp
qed

text \<open>
  C7, as stated, says that without an SVG the first PNG of the format list is retained. The
  loop stores every PNG it meets, so the last one stays: for the formats \<^verbatim>\<open>a.png\<close>,
  \<^verbatim>\<open>b.png\<close> the key holds \<^verbatim>\<open>b.png\<close>.
\<close>

theorem C7_first_png_counterexample:
  "map_of (bf_logos (extract_brand_data_brandfetch
      \<lparr>resp_colors = [], resp_fonts = [],
       resp_logos = [\<lparr>bf_logo_type = Some ''logo'', bf_logo_theme = Some ''light'',
         bf_logo_formats = [\<lparr>format = Some ''png'', src = Some ''a.png''\<rparr>,
                            \<lparr>format = Some ''png'', src = Some ''b.png''\<rparr>]\<rparr>],
       resp_description = None, resp_company = None, qualityScore = None\<rparr>)) ''logo_light'' =
     Some (Some ''b.png'') \<and>
   first_src [\<lparr>format = Some ''png'', src = Some ''a.png''\<rparr>,
              \<lparr>format = Some ''png'', src = Some ''b.png''\<rparr>] = Some (Some ''a.png'')"
  by (simp add: extract_brand_data_brandfetch_def logo_key_def first_src_def)

text \<open>
  C7, amended. The loop over the formats of one logo leaves under the logo's key the source
  of the first SVG of the list if there is an SVG, otherwise the source of the last PNG of
  the list, and leaves the dictionary as it is if the list has neither. In the result,
  each key \<^verbatim>\<open>{type}_{theme}\<close> occurs once, and its value is the choice for the last logo
  with that key that has an SVG or a PNG; a key of no such logo is absent.
\<close>

theorem C7_logo_formats:
  "formats_loop key fs acc =
     (case best_src fs of None \<Rightarrow> acc | Some v \<Rightarrow> dict_set key v acc) \<and>
   best_src fs =
     (case find (\<lambda>f. format f = Some ''svg'') fs of
        Some f \<Rightarrow> Some (src f)
      | None \<Rightarrow>
          (case filter (\<lambda>f. format f = Some ''png'') fs of
             [] \<Rightarrow> None
           | p # ps \<Rightarrow> Some (src (last (p # ps))))) \<and>
   map_of (bf_logos (extract_brand_data_brandfetch r)) k =
     (case filter (\<lambda>l. logo_key l = k \<and> best_src (bf_logo_formats l) \<noteq> None) (resp_logos r) of
        [] \<Rightarrow> None
      | x # xs \<Rightarrow> best_src (bf_logo_formats (last (x # xs)))) \<and>
   distinct (map fst (bf_logos (extract_brand_data_brandfetch r)))"
proof -
  have "map_of (bf_logos_loop (resp_logos r) []) k =
     (case filter (\<lambda>l. logo_key l = k \<and> best_src (bf_logo_formats l) \<noteq> None) (resp_logos r) of
        [] \<Rightarrow> None
      | x # xs \<Rightarrow> best_src (bf_logo_formats (last (x # xs))))"
    by (simp add: bf_logos_loop_lookup del: not_None_eq split: list.splits)
  moreover have "distinct (map fst (bf_logos_loop (resp_logos r) []))"
    by (rule bf_logos_loop_distinct) simp
  ultimately show ?thesis
    by (simp add: extract_brand_data_brandfetch_def Let_def formats_loop_best best_src_def
        del: not_None_eq)
qed

theorem C7_logo_formats_witness:
  "map_of (bf_logos (extract_brand_data_brandfetch
      \<lparr>resp_colors = [], resp_fonts = [],
       resp_logos =
         [\<lparr>bf_logo_type = Some ''logo'', bf_logo_theme = Some ''light'',
           bf_logo_formats = [\<lparr>format = Some ''png'', src = Some ''a.png''\<rparr>,
                              \<lparr>format = Some ''svg'', src = Some ''s.svg''\<rparr>,
                              \<lparr>format = Some ''png'', src = Some ''b.png''\<rparr>]\<rparr>,
          \<lparr>bf_logo_type = None, bf_logo_theme = None,
           bf_logo_formats = [\<lparr>format = Some ''jpeg'', src = Some ''j.jpg''\<rparr>]\<rparr>,
          \<lparr>bf_logo_type = Some ''icon'', bf_logo_theme = Some ''dark'',
           bf_logo_formats = [\<lparr>format = Some ''png'', src = Some ''p1.png''\<rparr>,
                              \<lparr>format = Some ''png'', src = Some ''p2.png''\<rparr>]\<rparr>],
       resp_description = None, resp_company = None, qualityScore = None\<rparr>)) ''logo_light'' =
     Some (Some ''s.svg'') \<and>
   map_of (bf_logos (extract_brand_data_brandfetch
      \<lparr>resp_colors = [], resp_fonts = [],
       resp_logos =
         [\<lparr>bf_logo_type = Some ''logo'', bf_logo_theme = Some ''light'',
           bf_logo_formats = [\<lparr>format = Some ''png'', src = Some ''a.png''\<rparr>,
                              \<lparr>format = Some ''svg'', src = Some ''s.svg''\<rparr>,
                              \<lparr>format = Some ''png'', src = Some ''b.png''\<rparr>]\<rparr>,
          \<lparr>bf_logo_type = None, bf_logo_theme = None,
           bf_logo_formats = [\<lparr>format = Some ''jpeg'', src = Some ''j.jpg''\<rparr>]\<rparr>,
          \<lparr>bf_logo_type = Some ''icon'', bf_logo_theme = Some ''dark'',
           bf_logo_formats = [\<lparr>format = Some ''png'', src = Some ''p1.png''\<rparr>,
                              \<lparr>format = Some ''png'', src = Some ''p2.png''\<rparr>]\<rparr>],
       resp_description = None, resp_company = None, qualityScore = None\<rparr>)) ''icon_dark'' =
     Some (Some ''p2.png'')"
proof -
  let ?r = "\<lparr>resp_colors = [], resp_fonts = [],
       resp_logos =
         [\<lparr>bf_logo_type = Some ''logo'', bf_logo_theme = Some ''light'',
           bf_logo_formats = [\<lparr>format = Some ''png'', src = Some ''a.png''\<rparr>,
                              \<lparr>format = Some ''svg'', src = Some ''s.svg''\<rparr>,
                              \<lparr>format = Some ''png'', src = Some ''b.png''\<rparr>]\<rparr>,
          \<lparr>bf_logo_type = None, bf_logo_theme = None,
           bf_logo_formats = [\<lparr>format = Some ''jpeg'', src = Some ''j.jpg''\<rparr>]\<rparr>,
          \<lparr>bf_logo_type = Some ''icon'', bf_logo_theme = Some ''dark'',
           bf_logo_formats = [\<lparr>format = Some ''png'', src = Some ''p1.png''\<rparr>,
                              \<lparr>format = Some ''png'', src = Some ''p2.png''\<rparr>]\<rparr>],
       resp_description = None, resp_company = None, qualityScore = None\<rparr>"
  from C7_logo_formats[of _ "[]" "[]" ?r "''logo_light''"]
  have "map_of (bf_logos (extract_brand_data_brandfetch ?r)) ''logo_light'' = Some (Some ''s.svg'')"
    by (simp add: logo_key_def best_src_def)
  moreover from C7_logo_formats[of _ "[]" "[]" ?r "''icon_dark''"]
  have "map_of (bf_logos (extract_brand_data_brandfetch ?r)) ''icon_dark'' = Some (Some ''p2.png'')"
    by (simp add: logo_key_def best_src_def)
  ultimately show ?thesis by simp
qed

subsection \<open>Matches and their context\<close>

lemma lower_char_eq_word: "lower_char c = lower_char d \<Longrightarrow> is_word c = is_word d"
  by (metis is_word_lower_char)

lemma lower_eq_ends:
  assumes "lower a = lower b" and "a \<noteq> []"
  shows "is_word (hd a) = is_word (hd b) \<and> is_word (last a) = is_word (last b)"
proof -
  from assms have b: "b \<noteq> []" by (auto simp: lower_def)
  from assms(1) have "hd (lower a) = hd (lower b)" "last (lower a) = last (lower b)" by simp_all
  with assms(2) b have "lower_char (hd a) = lower_char (hd b)"
    "lower_char (last a) = lower_char (last b)"
    by (simp_all add: lower_def hd_map last_map)
  then show ?thesis using lower_char_eq_word by blast
qed

lemma last_opt_append: "last_opt prev (a @ b) = last_opt (last_opt prev a) b"
  by (simp add: last_opt_def)

lemma head_append: "a \<noteq> [] \<Longrightarrow> head (a @ b) = head a"
  by (cases a) (simp_all add: head_def)

lemma word_s: "is_word CHR ''s''" "is_word CHR ''y''" "is_word CHR ''i''" "is_word CHR ''e''"
  by (simp_all add: char_eval)

lemma match_tail_props:
  assumes "match_tail t p x = Some (g2, r)" and "word_opt p"
  shows "x = g2 @ r \<and> list_all is_word g2 \<and> \<not> word_opt (head r)"
proof -
  from match_tail_split[OF assms(1)] have x: "x = g2 @ r" .
  show ?thesis
  proof (cases t)
    case NoTail
    with assms x show ?thesis by (auto simp: boundary_def split: if_splits)
  next
    case OptS
    show ?thesis
    proof (cases "ends_here ''s'' 1 x")
      case True
      then obtain c x' where xc: "x = c # x'" and lc: "lower_char CHR ''s'' = lower_char c"
        and b: "boundary (Some c) (head x')"
        by (cases x) (auto simp: ends_here_def head_def split: if_splits)
      from True OptS assms(1) xc have g: "g2 = [c]" "r = x'" by simp_all
      from lc word_s(1) have "is_word c" using lower_char_eq_word by blast
      with b g x show ?thesis by (simp add: boundary_def word_opt_def)
    next
      case False
      with OptS assms x show ?thesis by (auto simp: boundary_def split: if_splits)
    qed
  next
    case YOrIes
    show ?thesis
    proof (cases "ends_here ''y'' 1 x")
      case True
      then obtain c x' where xc: "x = c # x'" and lc: "lower_char CHR ''y'' = lower_char c"
        and b: "boundary (Some c) (head x')"
        by (cases x) (auto simp: ends_here_def head_def split: if_splits)
      from True YOrIes assms(1) xc have g: "g2 = [c]" "r = x'" by simp_all
      from lc word_s(2) have "is_word c" using lower_char_eq_word by blast
      with b g x show ?thesis by (simp add: boundary_def word_opt_def)
    next
      case False
      with YOrIes assms(1) have e: "ends_here ''ies'' 3 x" and g: "g2 = take 3 x" "r = drop 3 x"
        by (auto split: if_splits)
      from e obtain a b c x' where xc: "x = a # b # c # x'"
        and l: "lower_char CHR ''i'' = lower_char a" "lower_char CHR ''e'' = lower_char b"
          "lower_char CHR ''s'' = lower_char c"
        and bd: "boundary (Some c) (head x')"
        by (cases x; cases "tl x"; cases "tl (tl x)")
          (auto simp: ends_here_def head_def split: if_splits)
      from l word_s have "is_word a" "is_word b" "is_word c" using lower_char_eq_word by blast+
      with bd g xc x show ?thesis by (simp add: boundary_def word_opt_def)
    qed
  qed
qed

lemma match_tail_context:
  assumes "match_tail t p x = Some (g2, r)" and "word_opt p' = word_opt p"
    and "word_opt (head r') = word_opt (head r)"
  shows "match_tail t p' (g2 @ r') \<noteq> None"
proof (cases t)
  case NoTail
  with assms show ?thesis by (auto simp: boundary_def split: if_splits)
next
  case OptS
  show ?thesis
  proof (cases "ends_here ''s'' 1 x")
    case True
    then obtain c x' where xc: "x = c # x'" and lc: "lower_char CHR ''s'' = lower_char c"
      and b: "boundary (Some c) (head x')"
      by (cases x) (auto simp: ends_here_def head_def split: if_splits)
    from True OptS assms(1) xc have g: "g2 = [c]" "r = x'" by simp_all
    with lc b assms(3) have "ends_here ''s'' 1 (g2 @ r')"
      by (simp add: ends_here_def boundary_def head_def)
    with OptS show ?thesis by simp
  next
    case False
    with OptS assms(1) have "g2 = []" "r = x" "boundary p (head x)" by (auto split: if_splits)
    with assms(2,3) have "boundary p' (head ([] @ r'))" by (simp add: boundary_def)
    with OptS \<open>g2 = []\<close> show ?thesis by simp
  qed
next
  case YOrIes
  show ?thesis
  proof (cases "ends_here ''y'' 1 x")
    case True
    then obtain c x' where xc: "x = c # x'" and lc: "lower_char CHR ''y'' = lower_char c"
      and b: "boundary (Some c) (head x')"
      by (cases x) (auto simp: ends_here_def head_def split: if_splits)
    from True YOrIes assms(1) xc have g: "g2 = [c]" "r = x'" by simp_all
    with lc b assms(3) have "ends_here ''y'' 1 (g2 @ r')"
      by (simp add: ends_here_def boundary_def head_def)
    with YOrIes show ?thesis by simp
  next
    case False
    with YOrIes assms(1) have e: "ends_here ''ies'' 3 x" and g: "g2 = take 3 x" "r = drop 3 x"
      by (auto split: if_splits)
    from e obtain a b c x' where xc: "x = a # b # c # x'"
      and l: "lower_char CHR ''i'' = lower_char a" "lower_char CHR ''e'' = lower_char b"
        "lower_char CHR ''s'' = lower_char c"
      and bd: "boundary (Some c) (head x')"
      by (cases x; cases "tl x"; cases "tl (tl x)")
        (auto simp: ends_here_def head_def split: if_splits)
    from g xc l bd assms(3) have "ends_here ''ies'' 3 (g2 @ r')"
      by (simp add: ends_here_def boundary_def head_def)
    with YOrIes show ?thesis by simp
  qed
qed

lemma match_here_props:
  assumes "match_here (Rx l t) prev s = Some (g1, g2, r)" and "wf_lit l"
  shows "s = g1 @ g2 @ r" and "length g1 = length l" and "lower g1 = lower l"
    and "g1 \<noteq> []" and "is_word (hd g1)" and "is_word (last g1)" and "list_all is_word g2"
    and "\<not> word_opt prev" and "\<not> word_opt (head r)"
    and "match_tail t (Some (last g1)) (g2 @ r) = Some (g2, r)"
proof -
  from assms(1) have bd: "boundary prev (head s)" and st: "starts_ci l s"
    and g1: "g1 = take (length l) s"
    and mt: "match_tail t (last_opt prev g1) (drop (length l) s) = Some (g2, r)"
    by (auto split: if_splits option.splits)
  from st g1 show len: "length g1 = length l" and low: "lower g1 = lower l"
    by (simp_all add: starts_ci_iff)
  from assms(2) len show ne: "g1 \<noteq> []" by (auto simp: wf_lit_def)
  from lower_eq_ends[OF low ne] assms(2) show hd: "is_word (hd g1)" and la: "is_word (last g1)"
    by (simp_all add: wf_lit_def)
  from ne have lo: "last_opt prev g1 = Some (last g1)" by (simp add: last_opt_def)
  from la have "word_opt (Some (last g1))" by (simp add: word_opt_def)
  from match_tail_props[OF mt[unfolded lo] this]
  have dr: "drop (length l) s = g2 @ r" and "list_all is_word g2" and "\<not> word_opt (head r)"
    by simp_all
  then show "list_all is_word g2" and "\<not> word_opt (head r)" by simp_all
  from g1 dr show s: "s = g1 @ g2 @ r" by (metis append_take_drop_id)
  from s ne have "head s = Some (hd g1)" by (cases g1) (simp_all add: head_def)
  with bd hd show "\<not> word_opt prev" by (simp add: boundary_def word_opt_def)
  from mt lo dr show "match_tail t (Some (last g1)) (g2 @ r) = Some (g2, r)" by simp
qed

lemma span_last_word:
  assumes "g1 \<noteq> []" and "is_word (last g1)" and "list_all is_word g2"
  shows "is_word (last (g1 @ g2))"
proof (cases "g2 = []")
  case True
  with assms show ?thesis by simp
next
  case False
  then have "last g2 \<in> set g2" by simp
  with assms(3) have "is_word (last g2)" by (simp add: list_all_iff)
  with False show ?thesis by simp
qed

lemma match_here_context:
  assumes m: "match_here (Rx l t) prev s = Some (g1, g2, r)" and wf: "wf_lit l"
    and p': "\<not> word_opt prev'" and r': "\<not> word_opt (head r')"
  shows "match_here (Rx l t) prev' (g1 @ g2 @ r') \<noteq> None"
proof -
  note props = match_here_props[OF m wf]
  from props(4) have hd: "head (g1 @ g2 @ r') = Some (hd g1)"
    by (cases g1) (simp_all add: head_def)
  with props(5) p' have bd: "boundary prev' (head (g1 @ g2 @ r'))"
    by (simp add: boundary_def word_opt_def)
  from props(2,3) have st: "starts_ci l (g1 @ g2 @ r')" by (simp add: starts_ci_iff)
  from props(2) have tk: "take (length l) (g1 @ g2 @ r') = g1"
    and dr: "drop (length l) (g1 @ g2 @ r') = g2 @ r'"
    by simp_all
  from props(4) have lo: "last_opt prev' g1 = Some (last g1)" by (simp add: last_opt_def)
  from props(9) r' have "word_opt (head r') = word_opt (head r)" by simp
  from match_tail_context[OF props(10) refl this]
  obtain y where "match_tail t (Some (last g1)) (g2 @ r') = Some y" by auto
  with bd st tk dr lo show ?thesis by (cases y) simp
qed

lemma re_search_complete:
  "match_here rx (last_opt prev a) b \<noteq> None \<Longrightarrow> re_search rx prev (a @ b) \<noteq> None"
proof (induction a arbitrary: prev)
  case Nil
  then show ?case
    by (cases b) (auto simp: last_opt_def split: option.splits)
next
  case (Cons c a)
  from Cons.prems have "match_here rx (last_opt (Some c) a) b \<noteq> None"
    by (simp add: last_opt_Cons)
  from Cons.IH[OF this] show ?case by (auto split: option.splits)
qed

lemma word_tails_mem:
  "b \<noteq> [] \<Longrightarrow> \<not> word_opt (last_opt prev a) \<Longrightarrow> b \<in> set (word_tails prev (a @ b))"
proof (induction a arbitrary: prev)
  case Nil
  then show ?case by (cases b) (simp_all add: last_opt_def)
next
  case (Cons x a)
  from Cons.prems have "\<not> word_opt (last_opt (Some x) a)" by (simp add: last_opt_Cons)
  from Cons.IH[OF Cons.prems(1) this] show ?case by simp
qed

lemma append_eq_cases:
  "xs @ ys = zs @ ts \<Longrightarrow> \<exists>us. (xs = zs @ us \<and> us @ ys = ts) \<or> (xs @ us = zs \<and> ys = us @ ts)"
  by (simp add: append_eq_append_conv2)

lemma no_overlap:
  assumes m1: "match_here (Rx l1 t1) p1 s1 = Some (g1, g2, post)" and wf1: "wf_lit l1"
    and m2: "match_here (Rx l2 t2) (last_opt p1 us) s2 = Some (h1, h2, post')"
    and wf2: "wf_lit l2"
    and eq: "s1 = us @ s2" and short: "length us < length (g1 @ g2)"
    and sep: "separated_from l1 l2"
  shows False
proof -
  note a = match_here_props[OF m1 wf1]
  note b = match_here_props[OF m2 wf2]
  from a(1) eq have e: "us @ s2 = g1 @ (g2 @ post)" by simp
  have edge: "\<not> is_word (last us)" if "us \<noteq> []"
    using that b(8) by (simp add: last_opt_def word_opt_def)
  from append_eq_cases[OF e]
  obtain w where "(us = g1 @ w \<and> w @ s2 = g2 @ post) \<or> (us @ w = g1 \<and> s2 = w @ g2 @ post)"
    by blast
  then show False
  proof
    assume c: "us = g1 @ w \<and> w @ s2 = g2 @ post"
    with a(4) have ne: "us \<noteq> []" by simp
    from c short have lw: "length w < length g2" by simp
    with c have "w = take (length w) g2"
      by (metis append_eq_append_conv_if append_take_drop_id less_imp_le_nat)
    then have "set w \<subseteq> set g2" by (metis set_take_subset)
    with a(7) have "list_all is_word w" by (auto simp: list_all_iff)
    from span_last_word[OF a(4) a(6) this] c have "is_word (last us)" by simp
    with edge[OF ne] show False by simp
  next
    assume c: "us @ w = g1 \<and> s2 = w @ g2 @ post"
    show False
    proof (cases "w = []")
      case True
      with c a(4,6) have "us \<noteq> []" "is_word (last us)" by auto
      with edge show False by simp
    next
      case False
      from c have "prefix w s2" by (simp add: prefix_def)
      moreover from b(1) have "prefix h1 s2" by (simp add: prefix_def)
      ultimately have "prefix w s2" "prefix h1 s2" by simp_all
      then have "prefix w h1 \<or> prefix h1 w" by (rule prefix_same_cases)
      then have "prefix (lower w) (lower h1) \<or> prefix (lower h1) (lower w)"
        unfolding lower_def by (auto intro: map_mono_prefix)
      with b(3) have ag: "agree (lower w) (lower l2)" by (simp add: agree_def)
      have "\<not> word_opt (last_opt None (lower us))"
      proof (cases "us = []")
        case True
        then show ?thesis by (simp add: last_opt_def word_opt_def lower_def)
      next
        case False
        with edge have "\<not> is_word (lower_char (last us))" by (simp add: is_word_lower_char)
        with False show ?thesis by (simp add: last_opt_def word_opt_def lower_def last_map)
      qed
      moreover from False have "lower w \<noteq> []" by (simp add: lower_def)
      ultimately have "lower w \<in> set (word_tails None (lower us @ lower w))"
        by (intro word_tails_mem)
      moreover from c a(3) have "lower us @ lower w = lower l1" by (auto simp: lower_def)
      ultimately have "lower w \<in> set (word_tails None (lower l1))" by simp
      with sep have "\<not> agree (lower w) (lower l2)"
        by (simp add: separated_from_def list_all_iff)
      with ag show False by simp
    qed
  qed
qed

lemma append_long_prefix:
  assumes "us @ a = m @ b" and "\<not> length us < length m"
  shows "\<exists>y. us = m @ y \<and> b = y @ a"
proof -
  from append_eq_cases[OF assms(1)]
  obtain w where "(us = m @ w \<and> w @ a = b) \<or> (us @ w = m \<and> a = w @ b)"
    by blast
  then show ?thesis
  proof
    assume "us = m @ w \<and> w @ a = b"
    then show ?thesis by auto
  next
    assume h: "us @ w = m \<and> a = w @ b"
    then have "length us + length w = length m" by (metis length_append)
    with assms(2) have "length w = 0" by linarith
    then have "w = []" by simp
    with h show ?thesis by simp
  qed
qed

lemma match_survives:
  assumes p: "re_search (Rx l1 t1) None s = Some (pre, g1, g2, post)"
    and q: "re_search (Rx l2 t2) None s \<noteq> None"
    and c: "compatible (Rx l1 t1) (Rx l2 t2)"
  shows "re_search (Rx l2 t2) None (pre @ x @ post) \<noteq> None"
proof -
  from c have wf1: "wf_lit l1" and wf2: "wf_lit l2"
    and sep12: "separated_from l1 l2" and sep21: "separated_from l2 l1"
    by (simp_all add: compatible_def)
  from q obtain pre' h1 h2 post' where q': "re_search (Rx l2 t2) None s = Some (pre', h1, h2, post')"
    by (cases "re_search (Rx l2 t2) None s") auto
  from re_search_leftmost[OF p]
  have mp: "match_here (Rx l1 t1) (last_opt None pre) (g1 @ g2 @ post) = Some (g1, g2, post)"
    by simp
  from re_search_leftmost[OF q']
  have mq: "match_here (Rx l2 t2) (last_opt None pre') (h1 @ h2 @ post') = Some (h1, h2, post')"
    by simp
  note a = match_here_props[OF mp wf1]
  note b = match_here_props[OF mq wf2]
  have wa: "is_word (last (g1 @ g2))" by (rule span_last_word[OF a(4) a(6) a(7)])
  have wb: "is_word (last (h1 @ h2))" by (rule span_last_word[OF b(4) b(6) b(7)])
  from re_search_split[OF p] re_search_split[OF q']
  have "pre @ (g1 @ g2 @ post) = pre' @ (h1 @ h2 @ post')" by simp
  from append_eq_cases[OF this]
  obtain us where "(pre = pre' @ us \<and> us @ (g1 @ g2 @ post) = h1 @ h2 @ post') \<or>
      (pre @ us = pre' \<and> g1 @ g2 @ post = us @ (h1 @ h2 @ post'))"
    by blast
  then show ?thesis
  proof
    assume d: "pre = pre' @ us \<and> us @ (g1 @ g2 @ post) = h1 @ h2 @ post'"
    show ?thesis
    proof (cases "length us < length (h1 @ h2)")
      case True
      from d have "last_opt None pre = last_opt (last_opt None pre') us"
        by (simp add: last_opt_append)
      with mp have mp': "match_here (Rx l1 t1) (last_opt (last_opt None pre') us)
          (g1 @ g2 @ post) = Some (g1, g2, post)"
        by simp
      from d have "h1 @ h2 @ post' = us @ (g1 @ g2 @ post)" by simp
      from no_overlap[OF mq wf2 mp' wf1 this True sep21] show ?thesis ..
    next
      case False
      from d have "us @ (g1 @ g2 @ post) = (h1 @ h2) @ post'" by simp
      from append_long_prefix[OF this False]
      obtain y where us: "us = (h1 @ h2) @ y" and post': "post' = y @ g1 @ g2 @ post"
        by blast
      have "y \<noteq> []"
      proof
        assume "y = []"
        with d us b(4) have "last_opt None pre = Some (last (h1 @ h2))"
          by (simp add: last_opt_def)
        with wb a(8) show False by (simp add: word_opt_def)
      qed
      with post' b(9) have "\<not> word_opt (head (y @ x @ post))" by (simp add: head_append)
      from match_here_context[OF mq wf2 b(8) this]
      have "match_here (Rx l2 t2) (last_opt None pre') (h1 @ h2 @ y @ x @ post) \<noteq> None" .
      from re_search_complete[OF this] d us show ?thesis by simp
    qed
  next
    assume d: "pre @ us = pre' \<and> g1 @ g2 @ post = us @ (h1 @ h2 @ post')"
    show ?thesis
    proof (cases "length us < length (g1 @ g2)")
      case True
      from d have "last_opt None pre' = last_opt (last_opt None pre) us"
        by (auto simp: last_opt_append)
      with mq have mq': "match_here (Rx l2 t2) (last_opt (last_opt None pre) us)
          (h1 @ h2 @ post') = Some (h1, h2, post')"
        by simp
      from d have "g1 @ g2 @ post = us @ (h1 @ h2 @ post')" by simp
      from no_overlap[OF mp wf1 mq' wf2 this True sep12] show ?thesis ..
    next
      case False
      from d have "us @ (h1 @ h2 @ post') = (g1 @ g2) @ post" by simp
      from append_long_prefix[OF this False]
      obtain y where us: "us = (g1 @ g2) @ y" and post: "post = y @ h1 @ h2 @ post'"
        by blast
      have y: "y \<noteq> []"
      proof
        assume "y = []"
        with d us a(4) have "last_opt None pre' = Some (last (g1 @ g2))"
          by (auto simp: last_opt_def)
        with wa b(8) show False by (simp add: word_opt_def)
      qed
      with d us have "last_opt None (pre @ x @ y) = last_opt None pre'"
        by (auto simp: last_opt_def)
      with mq have "match_here (Rx l2 t2) (last_opt None (pre @ x @ y)) (h1 @ h2 @ post') \<noteq> None"
        by simp
      from re_search_complete[OF this] post show ?thesis by simp
    qed
  qed
qed

subsection \<open>The CFO cluster and the general cluster\<close>

lemma CFO_general_table:
  "list_all (\<lambda>p. list_all (\<lambda>q. compatible (fst p) (fst q)) (patterns general_cluster))
     (patterns CFO_cluster)"
  by (simp add: CFO_cluster_def general_cluster_def plural_def exact_def y_ies_def
      compatible_def wf_lit_def separated_from_def agree_def lower_def char_eval word_opt_def)

lemma CFO_general_compatible:
  "p \<in> set (patterns CFO_cluster) \<Longrightarrow> q \<in> set (patterns general_cluster) \<Longrightarrow>
     compatible (fst p) (fst q)"
  using CFO_general_table by (simp add: list_all_iff)

lemma table_CFO: "map_of KEYWORD_CLUSTERS ''CFO'' = Some CFO_cluster"
  by (simp add: KEYWORD_CLUSTERS_def)

lemma table_general: "map_of KEYWORD_CLUSTERS ''general'' = Some general_cluster"
  by (simp add: KEYWORD_CLUSTERS_def)

lemma re_search_empty: "wf_lit l \<Longrightarrow> re_search (Rx l t) prev [] = None"
  by (cases l) (simp_all add: wf_lit_def)

lemma CFO_then_general:
  assumes nolink: "\<not> contains marker s"
    and p: "p \<in> set (patterns CFO_cluster)" "re_search (fst p) None s \<noteq> None"
    and q: "q \<in> set (patterns general_cluster)" "re_search (fst q) None s \<noteq> None"
  shows "\<exists>r n v. add_links_to_description s (Some ''CFO'') = (r, n, ''CFO'' # ''general'' # v)"
proof -
  obtain l2 t2 where q2: "fst q = Rx l2 t2" by (cases "fst q")
  obtain l t where "fst p = Rx l t" by (cases "fst p")
  with CFO_general_compatible[OF p(1) q(1)] p(2) re_search_empty have ne: "s \<noteq> []"
    by (auto simp: compatible_def)
  have "try_patterns (patterns CFO_cluster) s \<noteq> None"
  proof
    assume "try_patterns (patterns CFO_cluster) s = None"
    then have "\<forall>p \<in> set (patterns CFO_cluster). re_search (fst p) None s = None"
      by (simp only: try_patterns_None)
    from this p(1) have "re_search (fst p) None s = None" by (rule bspec)
    with p(2) show False by simp
  qed
  then obtain s1 where s1: "try_patterns (patterns CFO_cluster) s = Some s1" by auto
  from try_patterns_Some[OF s1] obtain p0 where p0: "p0 \<in> set (patterns CFO_cluster)"
    "re_search (fst p0) None s \<noteq> None" "s1 = re_sub1 p0 s"
    by blast
  obtain l1 t1 where p1: "fst p0 = Rx l1 t1" by (cases "fst p0")
  from p0(2) p1 obtain pre g1 g2 post where
    m: "re_search (Rx l1 t1) None s = Some (pre, g1, g2, post)"
    by (cases "re_search (Rx l1 t1) None s") auto
  with p0(3) p1 have s1': "s1 = pre @ expand (snd p0) g1 g2 @ post" by (simp add: re_sub1_def)
  from CFO_general_compatible[OF p0(1) q(1)] p1 q2 have "compatible (Rx l1 t1) (Rx l2 t2)"
    by simp
  from match_survives[OF m _ this, of "expand (snd p0) g1 g2"] q(2) q2 s1'
  have "re_search (fst q) None s1 \<noteq> None" by simp
  then have qs1: "re_search (fst q) None s1 \<noteq> None" .
  have "try_patterns (patterns general_cluster) s1 \<noteq> None"
  proof
    assume "try_patterns (patterns general_cluster) s1 = None"
    then have "\<forall>p \<in> set (patterns general_cluster). re_search (fst p) None s1 = None"
      by (simp only: try_patterns_None)
    from this q(1) have "re_search (fst q) None s1 = None" by (rule bspec)
    with qs1 show False by simp
  qed
  then obtain s2 where s2: "try_patterns (patterns general_cluster) s1 = Some s2" by auto
  let ?rest = "[''CMO'', ''CTO'', ''COO'']"
  have "link_loop (''CFO'' # ''general'' # ?rest) (s, 0, []) =
      link_loop (''general'' # ?rest) (s1, 0 + 1, [] @ [''CFO''])"
    by (rule link_loop_first[OF table_CFO s1]) (simp add: max_links_def)
  also have "\<dots> = link_loop ?rest (s2, 0 + 1 + 1, ([] @ [''CFO'']) @ [''general''])"
    by (rule link_loop_first[OF table_general s2]) (simp add: max_links_def)
  finally have loop: "link_loop (''CFO'' # ''general'' # ?rest) (s, 0, []) =
      link_loop ?rest (s2, 2, [''CFO'', ''general''])"
    by (simp del: link_loop.simps add: numeral_2_eq_2)
  obtain r n u where res: "link_loop ?rest (s2, 2, [''CFO'', ''general'']) = (r, n, u)"
    by (cases "link_loop ?rest (s2, 2, [''CFO'', ''general''])")
  from link_loop_inv[OF res] obtain v where "u = [''CFO'', ''general''] @ v" by blast
  with res loop ne nolink show ?thesis
    by (simp add: add_links_to_description_def cluster_order_CFO marker_def del: link_loop.simps)
qed

lemma add_links_subseq:
  "subseq (snd (snd (add_links_to_description s role))) (cluster_order role)"
proof -
  obtain r n u where res: "add_links_to_description s role = (r, n, u)"
    by (cases "add_links_to_description s role")
  from add_links_cases[of s role] have "subseq u (cluster_order role)"
  proof
    assume "add_links_to_description s role = (s, 0, [])"
    with res show ?thesis by simp
  next
    assume "s \<noteq> [] \<and> \<not> contains marker s \<and>
      add_links_to_description s role = link_loop (cluster_order role) (s, 0, [])"
    with res have "link_loop (cluster_order role) (s, 0, []) = (r, n, u)" by simp
    from link_loop_inv[OF this] show ?thesis by auto
  qed
  with res show ?thesis by simp
qed

lemma cluster_order_exact:
  assumes "upper rc \<in> {''CFO'', ''CMO'', ''CTO'', ''COO''}"
  shows "cluster_order (Some rc) =
     upper rc # ''general'' # filter (\<lambda>c. c \<noteq> upper rc) [''CFO'', ''CMO'', ''CTO'', ''COO'']"
proof -
  from assms have "rc \<noteq> []" by (auto simp: upper_def)
  with assms have "role_first (Some rc) = [upper rc, ''general'']"
    by (auto simp: role_first_def cluster_names)
  with assms show ?thesis by (auto simp: cluster_order_def)
qed

lemma cluster_order_fallback:
  assumes "upper rc \<notin> {''CFO'', ''CMO'', ''CTO'', ''COO''}"
  shows "cluster_order (Some rc) =
     (if contains ''CFO'' (upper rc) \<or> contains ''FINANCE'' (upper rc)
        then [''CFO'', ''general'', ''CMO'', ''CTO'', ''COO'']
      else if contains ''CMO'' (upper rc) \<or> contains ''MARKET'' (upper rc)
        then [''CMO'', ''general'', ''CFO'', ''CTO'', ''COO'']
      else if contains ''CTO'' (upper rc) \<or> contains ''TECH'' (upper rc)
        then [''CTO'', ''general'', ''CFO'', ''CMO'', ''COO'']
      else if contains ''COO'' (upper rc) \<or> contains ''OPERATION'' (upper rc)
        then [''COO'', ''general'', ''CFO'', ''CMO'', ''CTO'']
      else [''general'', ''CFO'', ''CMO'', ''CTO'', ''COO''])"
proof (cases "rc = []")
  case True
  then show ?thesis by (simp add: cluster_order_def role_first_def upper_def)
next
  case False
  with assms upper_not_general[of rc] show ?thesis
    by (simp add: cluster_order_def role_first_def cluster_names)
qed

end
